theory Spec2Isabelle
  imports Main
begin

section \<open>Python strings and lists\<close>

text \<open>
  A Python \<open>str\<close> is modelled as a \<open>string\<close>, each \<open>char\<close> standing for one code
  point below 256. The built-in string methods the script calls are written out as
  recursive functions; every call in the script passes a non-empty literal as the
  separator or the pattern, so the \<open>ValueError\<close> of an empty separator is never met
  (the models leave the string unsplit and unreplaced there).
\<close>

datatype error = IndexError

fun startswith :: "string \<Rightarrow> string \<Rightarrow> bool" where
  "startswith s [] = True"
| "startswith [] (p # ps) = False"
| "startswith (c # cs) (p # ps) = (c = p \<and> startswith cs ps)"

text \<open>\<open>sub in s\<close>: some suffix of \<open>s\<close> starts with \<open>sub\<close>.\<close>

fun str_contains :: "string \<Rightarrow> string \<Rightarrow> bool" where
  "str_contains sub [] = (sub = [])"
| "str_contains sub (c # cs) = (startswith (c # cs) sub \<or> str_contains sub cs)"

text \<open>\<open>s.split(sep)\<close>: the pieces between the occurrences of \<open>sep\<close>, found left to right.\<close>

function str_split :: "string \<Rightarrow> string \<Rightarrow> string list" where
  "str_split [] sep = [[]]"
| "str_split (c # cs) sep =
     (if sep \<noteq> [] \<and> startswith (c # cs) sep
      then [] # str_split (drop (length sep) (c # cs)) sep
      else (case str_split cs sep of
              [] \<Rightarrow> [[c]]
            | piece # pieces \<Rightarrow> (c # piece) # pieces))"
  by pat_completeness auto
termination
  by (relation "measure (\<lambda>(s, sep). length s)") auto

text \<open>\<open>s.replace(old, new)\<close>: every occurrence of \<open>old\<close>, found left to right without
  overlap, becomes \<open>new\<close>.\<close>

function str_replace :: "string \<Rightarrow> string \<Rightarrow> string \<Rightarrow> string" where
  "str_replace [] old new = []"
| "str_replace (c # cs) old new =
     (if old \<noteq> [] \<and> startswith (c # cs) old
      then new @ str_replace (drop (length old) (c # cs)) old new
      else c # str_replace cs old new)"
  by pat_completeness auto
termination
  by (relation "measure (\<lambda>(s, old, new). length s)") auto

text \<open>\<open>str.isspace\<close> on the code points below 256: tab to carriage return, the four
  separators 28 to 31, space, NEL (133) and the no-break space (160).\<close>

definition isspace :: "char \<Rightarrow> bool" where
  "isspace c = (c \<in> set [CHR 0x09, CHR 0x0A, CHR 0x0B, CHR 0x0C, CHR 0x0D,
                           CHR 0x1C, CHR 0x1D, CHR 0x1E, CHR 0x1F, CHR 0x20,
                           CHR 0x85, CHR 0xA0])"

text \<open>\<open>s.strip()\<close>: whitespace is dropped from both ends.\<close>

definition str_strip :: "string \<Rightarrow> string" where
  "str_strip s = rev (dropWhile isspace (rev (dropWhile isspace s)))"

text \<open>\<open>xs[i]\<close>: a negative index counts from the end, an index outside the list raises.\<close>

definition getitem :: "'a list \<Rightarrow> int \<Rightarrow> error + 'a" where
  "getitem xs i =
     (if 0 \<le> i \<and> i < int (length xs) then Inr (xs ! nat i)
      else if i < 0 \<and> - int (length xs) \<le> i then Inr (xs ! nat (int (length xs) + i))
      else Inl IndexError)"

section \<open>The ordered dictionary\<close>

text \<open>
  An \<open>OrderedDict\<close> is an association list in insertion order. Assigning to a key that
  is present replaces its value where it stands; a new key goes to the end.
\<close>

type_synonym ('k, 'v) ordered_dict = "('k \<times> 'v) list"

fun setitem :: "('k, 'v) ordered_dict \<Rightarrow> 'k \<Rightarrow> 'v \<Rightarrow> ('k, 'v) ordered_dict" where
  "setitem [] k v = [(k, v)]"
| "setitem ((k', v') # kvs) k v =
     (if k' = k then (k, v) # kvs else (k', v') # setitem kvs k v)"

abbreviation keys :: "('k, 'v) ordered_dict \<Rightarrow> 'k list" where
  "keys d \<equiv> map fst d"

section \<open>The reference lists\<close>

definition LIST_OF_INDUSTRIES :: "string list" where
  "LIST_OF_INDUSTRIES =
    [''Textile Mills'',
     ''Primary Metals'',
     ''Transportation Equipment'',
     ''Apparel, Leather & Allied Products'',
     ''Petroleum & Coal Products'',
     ''Printing & Related Support Activities'',
     ''Machinery'',
     ''Computer & Electronic Products'',
     ''Miscellaneous Manufacturing'',
     ''Electrical Equipment, Appliances & Components'',
     ''Plastics & Rubber Products'',
     ''Paper Products'',
     ''Furniture & Related Products'',
     ''Chemical Products'',
     ''Food, Beverage & Tobacco Products'',
     ''Fabricated Metal Products'',
     ''Nonmetallic Mineral Products'',
     ''Wood Products'']"

definition LIST_OF_INDICATORS :: "string list" where
  "LIST_OF_INDICATORS =
    [''NEW ORDERS'',
     ''PRODUCTION'',
     ''EMPLOYMENT'',
     ''SUPPLIER DELIVERIES'',
     ''INVENTORIES'' @ [CHR 0x0A],
     ''CUSTOMERS'' @ [CHR 0x27] @ '' INVENTORIES'',
     ''PRICES'',
     ''BACKLOG OF ORDERS'',
     ''NEW EXPORT ORDERS'',
     ''IMPORTS'',
     ''BUYING POLICY'']"

section \<open>The sentence classifier\<close>

text \<open>The loop of the colon-free branch: the reference list is walked in its order and
  an industry whose name occurs in the sentence is appended.\<close>

fun scan_industries :: "string \<Rightarrow> string list \<Rightarrow> string list \<Rightarrow> string list" where
  "scan_industries sentence [] list_industries = list_industries"
| "scan_industries sentence (industry # rest) list_industries =
     scan_industries sentence rest
       (if str_contains industry sentence then list_industries @ [industry]
        else list_industries)"

definition get_list_of_industries_from_sentence :: "string \<Rightarrow> error + string list" where
  "get_list_of_industries_from_sentence sentence =
     (if str_contains '':'' sentence then
        (case getitem (str_split sentence '':'') 1 of
           Inl e \<Rightarrow> Inl e
         | Inr industries \<Rightarrow>
             if str_contains '';'' industries then
               Inr (map (\<lambda>industry.
                      str_strip (str_replace (str_replace industry '' and '' '''')
                                   [CHR 0x0A] '' ''))
                    (str_split industries '';''))
             else
               Inr ([] @ [str_strip (str_replace industries [CHR 0x0A] '' '')]))
      else Inr (scan_industries sentence LIST_OF_INDUSTRIES []))"

section \<open>Rank assignment\<close>

text \<open>The growth loop and the decrease loop both store a counter that goes down by one
  at each industry; the neutral loop stores 0.\<close>

fun assign_descending ::
  "(string, int) ordered_dict \<Rightarrow> string list \<Rightarrow> int \<Rightarrow> (string, int) ordered_dict" where
  "assign_descending industries_dict [] index = industries_dict"
| "assign_descending industries_dict (industry # rest) index =
     assign_descending (setitem industries_dict industry index) rest (index - 1)"

fun assign_neutral ::
  "(string, int) ordered_dict \<Rightarrow> string list \<Rightarrow> (string, int) ordered_dict" where
  "assign_neutral industries_dict [] = industries_dict"
| "assign_neutral industries_dict (neutral_industry # rest) =
     assign_neutral (setitem industries_dict neutral_industry 0) rest"

definition create_dict_of_industries ::
  "string list \<Rightarrow> string list \<Rightarrow> string list \<Rightarrow> (string, int) ordered_dict" where
  "create_dict_of_industries list_growth list_neutral list_decrease =
     assign_descending
       (assign_neutral
          (assign_descending [] list_growth (int (length list_growth)))
          list_neutral)
       list_decrease (- 1)"

section \<open>The paragraph processor\<close>

definition list_industries_neutral :: "string list \<Rightarrow> string list \<Rightarrow> string list" where
  "list_industries_neutral list_industries_growth list_industries_decrease =
     filter (\<lambda>industry. industry \<notin> set list_industries_growth
                       \<and> industry \<notin> set list_industries_decrease)
       LIST_OF_INDUSTRIES"

definition process_paragraph :: "string \<Rightarrow> error + (string, int) ordered_dict" where
  "process_paragraph para_text =
     (let sentences = str_split para_text ''.'' in
      case getitem sentences 0 of
        Inl e \<Rightarrow> Inl e
      | Inr growth_sentence \<Rightarrow>
      (case getitem sentences 1 of
        Inl e \<Rightarrow> Inl e
      | Inr decrease_sentence \<Rightarrow>
      (case get_list_of_industries_from_sentence growth_sentence of
        Inl e \<Rightarrow> Inl e
      | Inr list_industries_growth \<Rightarrow>
      (case get_list_of_industries_from_sentence decrease_sentence of
        Inl e \<Rightarrow> Inl e
      | Inr list_industries_decrease \<Rightarrow>
          Inr (create_dict_of_industries list_industries_growth
                 (list_industries_neutral list_industries_growth list_industries_decrease)
                 list_industries_decrease)))))"

section \<open>The report segmenter\<close>

type_synonym full_report = "(string, (string, int) ordered_dict) ordered_dict"

text \<open>The body of the main loop, for the values \<open>i\<close> of \<open>range(1, len(LIST_OF_INDICATORS))\<close>
  still to come; the state is \<open>previous_text\<close> and the dictionary built so far.\<close>

fun segment_loop :: "nat list \<Rightarrow> string list \<Rightarrow> full_report \<Rightarrow> error + full_report" where
  "segment_loop [] previous_text industries_dict = Inr industries_dict"
| "segment_loop (i # rest) previous_text industries_dict =
     (case getitem previous_text 1 of
        Inl e \<Rightarrow> Inl e
      | Inr remaining \<Rightarrow>
      (let splitted_text = str_split remaining (LIST_OF_INDICATORS ! i) in
       case getitem splitted_text 0 of
        Inl e \<Rightarrow> Inl e
      | Inr verbose \<Rightarrow>
      (case getitem (str_split verbose (''.'' @ [CHR 0x0A]))
              (if i = length LIST_OF_INDICATORS - 1 then - 3 else - 2) of
        Inl e \<Rightarrow> Inl e
      | Inr paragraph \<Rightarrow>
      (case process_paragraph paragraph of
        Inl e \<Rightarrow> Inl e
      | Inr processed_paragraph \<Rightarrow>
          segment_loop rest splitted_text
            (setitem industries_dict (LIST_OF_INDICATORS ! (i - 1)) processed_paragraph)))))"

definition segment_report :: "string \<Rightarrow> error + full_report" where
  "segment_report text =
     segment_loop [1 ..< length LIST_OF_INDICATORS]
       (str_split text (LIST_OF_INDICATORS ! 0)) []"

definition output_filename :: "string \<Rightarrow> string" where
  "output_filename filename = str_replace filename ''pdf'' ''xlsx''"

section \<open>The normalization of a name segment, as the specification words it\<close>

text \<open>
  The occurrences of \<open>" and "\<close> are taken out, every newline becomes one space, and
  whitespace is stripped from both ends. It is written with other means than the code
  (pieces of a split, a map over the characters), to be compared with it.
\<close>

definition normalize_segment :: "string \<Rightarrow> string" where
  "normalize_segment segment =
     str_strip (map (\<lambda>c. if c = CHR 0x0A then CHR '' '' else c)
                  (concat (str_split segment '' and '')))"

section \<open>The cursor of the main loop\<close>

text \<open>
  The value of \<open>previous_text\<close> after the iterations for the given values of \<open>i\<close>:
  each iteration reads \<open>previous_text[1]\<close> and splits it on \<open>LIST_OF_INDICATORS[i]\<close>.
\<close>

fun previous_text_after :: "string list \<Rightarrow> nat list \<Rightarrow> error + string list" where
  "previous_text_after previous_text [] = Inr previous_text"
| "previous_text_after previous_text (i # rest) =
     (case getitem previous_text 1 of
        Inl e \<Rightarrow> Inl e
      | Inr remaining \<Rightarrow>
          previous_text_after (str_split remaining (LIST_OF_INDICATORS ! i)) rest)"

section \<open>The keys the main loop adds\<close>

text \<open>
  Iteration \<open>i\<close> of the main loop assigns to the key \<open>LIST_OF_INDICATORS[i-1]\<close>; on the
  list of keys this appends the label unless it is there already.
\<close>

definition add_key :: "string list \<Rightarrow> nat \<Rightarrow> string list" where
  "add_key ks i =
     (if LIST_OF_INDICATORS ! (i - 1) \<in> set ks then ks else ks @ [LIST_OF_INDICATORS ! (i - 1)])"

section \<open>Example inputs\<close>

text \<open>
  Paragraphs as the report words them, with all names known and distinct
  (\<open>para_ok\<close>), with a name outside the reference list (\<open>para_unknown\<close>) and with one
  industry named in both sentences (\<open>para_both\<close>); two sentences for the classifier;
  and a whole report text that holds the eleven labels in their order.
\<close>

definition para_ok :: string where
  "para_ok = ''Growth: Machinery; and Wood Products. Decrease: Paper Products.''"

definition para_unknown :: string where
  "para_unknown = ''Growth: Machinery; and Gadgets. Decrease: Wood Products.''"

definition para_both :: string where
  "para_both = ''Growth: Machinery; and Wood Products. Decrease: Machinery; and Paper Products.''"

definition sentence_two_names :: string where
  "sentence_two_names =
     ''Growth was reported by: Apparel, Leather & Allied'' @ [CHR 0x0A] @ ''Products; and Machinery''"

definition sentence_one_name :: string where
  "sentence_one_name = ''The only industry reporting growth is: Food, Beverage and Tobacco Products''"

definition example_report :: string where
  "example_report =
     ''ISM NEW ORDERS intro.'' @ [CHR 0x0A]
     @ ''Growth: Machinery; and Wood Products. Decrease: Paper Products.'' @ [CHR 0x0A]
     @ ''PRODUCTION a.b.'' @ [CHR 0x0A]
     @ ''EMPLOYMENT a.b.'' @ [CHR 0x0A]
     @ ''SUPPLIER DELIVERIES a.b.'' @ [CHR 0x0A]
     @ ''INVENTORIES'' @ [CHR 0x0A] @ ''a.b.'' @ [CHR 0x0A]
     @ ''CUSTOMERS'' @ [CHR 0x27] @ '' INVENTORIES a.b.'' @ [CHR 0x0A]
     @ ''PRICES a.b.'' @ [CHR 0x0A]
     @ ''BACKLOG OF ORDERS a.b.'' @ [CHR 0x0A]
     @ ''NEW EXPORT ORDERS a.b.'' @ [CHR 0x0A]
     @ ''IMPORTS a.b.'' @ [CHR 0x0A] @ ''footer.'' @ [CHR 0x0A]
     @ ''BUYING POLICY lead times''"

section \<open>Facts about the string functions\<close>

lemma startswith_iff: "startswith s p \<longleftrightarrow> (\<exists>r. s = p @ r)"
  by (induction s p rule: startswith.induct) auto

lemma str_contains_iff: "str_contains sub s \<longleftrightarrow> (\<exists>a b. s = a @ sub @ b)"
proof (induction s)
  case Nil
  then show ?case by auto
next
  case (Cons c cs)
  show ?case
  proof
    assume "str_contains sub (c # cs)"
    then consider "startswith (c # cs) sub" | "str_contains sub cs" by auto
    then show "\<exists>a b. c # cs = a @ sub @ b"
    proof cases
      case 1
      then obtain r where "c # cs = sub @ r" by (auto simp: startswith_iff)
      then have "c # cs = [] @ sub @ r" by simp
      then show ?thesis by blast
    next
      case 2
      then obtain a b where "cs = a @ sub @ b" using Cons.IH by auto
      then have "c # cs = (c # a) @ sub @ b" by simp
      then show ?thesis by blast
    qed
  next
    assume "\<exists>a b. c # cs = a @ sub @ b"
    then obtain a b where ab: "c # cs = a @ sub @ b" by blast
    show "str_contains sub (c # cs)"
    proof (cases a)
      case Nil
      with ab have "startswith (c # cs) sub" by (auto simp: startswith_iff)
      then show ?thesis by simp
    next
      case (Cons x a')
      with ab have "cs = a' @ sub @ b" by simp
      then have "str_contains sub cs" using Cons.IH by blast
      then show ?thesis by simp
    qed
  qed
qed

lemma str_contains_single: "str_contains [c] s \<longleftrightarrow> c \<in> set s"
  by (induction s) auto

lemma str_split_not_Nil: "str_split s sep \<noteq> []"
  by (induction s sep rule: str_split.induct) (auto split: list.splits)

lemma str_split_absent: "c \<notin> set s \<Longrightarrow> str_split s [c] = [s]"
  by (induction s) auto

lemma str_split_first:
  "c \<notin> set p \<Longrightarrow> str_split (p @ c # r) [c] = p # str_split r [c]"
  by (induction p) auto

lemma str_split_present: "c \<in> set s \<Longrightarrow> 2 \<le> length (str_split s [c])"
proof -
  assume "c \<in> set s"
  then obtain p r where "s = p @ c # r" "c \<notin> set p"
    by (meson split_list_first)
  then show ?thesis
    using str_split_not_Nil [of r "[c]"]
    by (cases "str_split r [c]") (auto simp: str_split_first)
qed

lemma str_replace_delete: "str_replace s old [] = concat (str_split s old)"
proof (induction s old rule: str_split.induct)
  case (1 sep)
  show ?case by simp
next
  case (2 c cs sep)
  show ?case
  proof (cases "sep \<noteq> [] \<and> startswith (c # cs) sep")
    case True
    with 2 show ?thesis by simp
  next
    case False
    with 2 have "str_replace cs sep [] = concat (str_split cs sep)" by blast
    with False show ?thesis
      using str_split_not_Nil [of cs sep] by (cases "str_split cs sep") auto
  qed
qed

lemma str_replace_char:
  "str_replace s [c] [c'] = map (\<lambda>x. if x = c then c' else x) s"
  by (induction s) auto

lemma normalize_segment_code:
  "str_strip (str_replace (str_replace segment '' and '' '''') [CHR 0x0A] '' '')
     = normalize_segment segment"
  by (simp only: normalize_segment_def str_replace_delete str_replace_char)

lemma str_strip_ends:
  "str_strip s = [] \<or> (\<not> isspace (hd (str_strip s)) \<and> \<not> isspace (last (str_strip s)))"
proof (cases "str_strip s = []")
  case True
  then show ?thesis by simp
next
  case False
  let ?d = "dropWhile isspace s"
  let ?t = "dropWhile isspace (rev ?d)"
  from False have t: "?t \<noteq> []" by (simp add: str_strip_def)
  have d: "?d \<noteq> []"
  proof
    assume "?d = []"
    with t show False by (metis dropWhile.simps(1) rev.simps(1))
  qed
  from t have "\<not> isspace (hd ?t)" by (rule hd_dropWhile)
  then have l: "\<not> isspace (last (str_strip s))"
    using t by (simp add: str_strip_def last_rev)
  have "takeWhile isspace (rev ?d) @ ?t = rev ?d" by (rule takeWhile_dropWhile_id)
  then have "last (rev ?d) = last (takeWhile isspace (rev ?d) @ ?t)" by simp
  also have "\<dots> = last ?t" using t by (rule last_appendR)
  finally have "last ?t = hd ?d" using d by (simp add: last_rev)
  moreover from d have "\<not> isspace (hd ?d)" by (rule hd_dropWhile)
  ultimately have "\<not> isspace (hd (str_strip s))"
    using t by (simp add: str_strip_def hd_rev)
  with l show ?thesis by blast
qed

lemma set_str_strip: "set (str_strip s) \<subseteq> set s"
proof -
  have "set (dropWhile isspace (rev (dropWhile isspace s))) \<subseteq> set (rev (dropWhile isspace s))"
    by (auto dest: set_dropWhileD)
  moreover have "set (dropWhile isspace s) \<subseteq> set s" by (auto dest: set_dropWhileD)
  ultimately show ?thesis by (auto simp: str_strip_def)
qed

lemma no_newline_after_replace:
  "CHR 0x0A \<notin> set (str_strip (str_replace s [CHR 0x0A] '' ''))"
proof -
  have "CHR 0x0A \<notin> set (str_replace s [CHR 0x0A] '' '')"
    by (auto simp: str_replace_char)
  then show ?thesis using set_str_strip by blast
qed

lemma getitem_0: "xs \<noteq> [] \<Longrightarrow> getitem xs 0 = Inr (xs ! 0)"
  by (simp add: getitem_def)

lemma getitem_1: "getitem xs 1 = (if 2 \<le> length xs then Inr (xs ! 1) else Inl IndexError)"
  by (auto simp: getitem_def)

lemma str_split_first_piece:
  assumes "sep \<noteq> []"
  shows "\<exists>rest. s = hd (str_split s sep) @ rest
           \<and> (rest = [] \<or> startswith rest sep)
           \<and> (\<forall>p q. hd (str_split s sep) = p @ q \<and> q \<noteq> [] \<longrightarrow> \<not> startswith (q @ rest) sep)"
proof (induction s)
  case Nil
  show ?case by simp
next
  case (Cons c cs)
  show ?case
  proof (cases "startswith (c # cs) sep")
    case True
    with assms have "hd (str_split (c # cs) sep) = []" by simp
    with True show ?thesis by auto
  next
    case False
    from Cons obtain rest where
      r: "cs = hd (str_split cs sep) @ rest" "rest = [] \<or> startswith rest sep"
         "\<forall>p q. hd (str_split cs sep) = p @ q \<and> q \<noteq> [] \<longrightarrow> \<not> startswith (q @ rest) sep"
      by blast
    from False have h: "hd (str_split (c # cs) sep) = c # hd (str_split cs sep)"
      using str_split_not_Nil [of cs sep] by (cases "str_split cs sep") auto
    have "\<not> startswith (q @ rest) sep"
      if "hd (str_split (c # cs) sep) = p @ q" "q \<noteq> []" for p q
    proof (cases p)
      case Nil
      with that h r(1) have "q @ rest = c # cs" by simp
      with False show ?thesis by simp
    next
      case (Cons x p')
      with that h have "hd (str_split cs sep) = p' @ q" by simp
      with r(3) that(2) show ?thesis by blast
    qed
    moreover from h r(1) have "c # cs = hd (str_split (c # cs) sep) @ rest" by simp
    ultimately show ?thesis using r(2) by blast
  qed
qed

lemma first_piece_is_prefix:
  assumes "getitem (str_split s sep) 0 = Inr piece" and "sep \<noteq> []"
  shows "\<exists>rest. s = piece @ rest \<and> (rest = [] \<or> startswith rest sep)"
proof -
  have "getitem (str_split s sep) 0 = Inr (str_split s sep ! 0)"
    using str_split_not_Nil by (rule getitem_0)
  with assms(1) have "piece = hd (str_split s sep)"
    using str_split_not_Nil [of s sep] by (simp add: hd_conv_nth)
  with str_split_first_piece [OF assms(2), of s] show ?thesis by blast
qed

section \<open>Facts about the ordered dictionary and the rank loops\<close>

lemma map_of_setitem: "map_of (setitem d k v) = (map_of d)(k \<mapsto> v)"
  by (induction d) (auto simp: fun_eq_iff)

lemma keys_setitem:
  "keys (setitem d k v) = (if map_of d k = None then keys d @ [k] else keys d)"
  by (induction d) auto

lemma set_keys_setitem: "fst ` set (setitem d k v) = insert k (fst ` set d)"
  using arg_cong [OF keys_setitem [of d k v], of set]
  by (auto simp: map_of_eq_None_iff)

lemma distinct_keys_setitem: "distinct (keys d) \<Longrightarrow> distinct (keys (setitem d k v))"
  by (simp add: keys_setitem map_of_eq_None_iff)

lemma set_keys_assign_descending:
  "fst ` set (assign_descending d xs idx) = fst ` set d \<union> set xs"
  by (induction xs arbitrary: d idx) (simp_all add: set_keys_setitem)

lemma distinct_keys_assign_descending:
  "distinct (keys d) \<Longrightarrow> distinct (keys (assign_descending d xs idx))"
  by (induction xs arbitrary: d idx) (simp_all add: distinct_keys_setitem)

lemma assign_descending_other:
  "k \<notin> set xs \<Longrightarrow> map_of (assign_descending d xs idx) k = map_of d k"
  by (induction xs arbitrary: d idx) (auto simp: map_of_setitem)

lemma assign_descending_last_occurrence:
  "i < length xs \<Longrightarrow> xs ! i \<notin> set (drop (Suc i) xs) \<Longrightarrow>
   map_of (assign_descending d xs idx) (xs ! i) = Some (idx - int i)"
proof (induction xs arbitrary: d idx i)
  case Nil
  then show ?case by simp
next
  case (Cons x xs)
  show ?case
  proof (cases i)
    case 0
    with Cons.prems have "x \<notin> set xs" by simp
    then show ?thesis using 0 by (simp add: assign_descending_other map_of_setitem)
  next
    case (Suc j)
    with Cons.prems have "j < length xs" "xs ! j \<notin> set (drop (Suc j) xs)" by simp_all
    from Cons.IH [OF this] show ?thesis using Suc by simp
  qed
qed

lemma assign_descending_range:
  "k \<in> set xs \<Longrightarrow>
   \<exists>v. map_of (assign_descending d xs idx) k = Some v \<and> idx - int (length xs) < v \<and> v \<le> idx"
proof (induction xs arbitrary: d idx)
  case Nil
  then show ?case by simp
next
  case (Cons x xs)
  show ?case
  proof (cases "k \<in> set xs")
    case True
    from Cons.IH [OF True, of "setitem d x idx" "idx - 1"] show ?thesis by auto
  next
    case False
    with Cons.prems have "k = x" by simp
    with False show ?thesis by (simp add: assign_descending_other map_of_setitem)
  qed
qed

lemma set_keys_assign_neutral:
  "fst ` set (assign_neutral d xs) = fst ` set d \<union> set xs"
  by (induction xs arbitrary: d) (simp_all add: set_keys_setitem)

lemma distinct_keys_assign_neutral:
  "distinct (keys d) \<Longrightarrow> distinct (keys (assign_neutral d xs))"
  by (induction xs arbitrary: d) (simp_all add: distinct_keys_setitem)

lemma map_of_assign_neutral:
  "map_of (assign_neutral d xs) k = (if k \<in> set xs then Some 0 else map_of d k)"
  by (induction xs arbitrary: d) (auto simp: map_of_setitem)

lemma set_keys_create_dict:
  "fst ` set (create_dict_of_industries g n d) = set g \<union> set n \<union> set d"
  by (simp add: create_dict_of_industries_def set_keys_assign_descending
      set_keys_assign_neutral)

lemma distinct_keys_create_dict: "distinct (keys (create_dict_of_industries g n d))"
  by (simp add: create_dict_of_industries_def distinct_keys_assign_descending
      distinct_keys_assign_neutral)

lemma create_dict_decline:
  "k \<in> set d \<Longrightarrow>
   \<exists>v. map_of (create_dict_of_industries g n d) k = Some v \<and> - 1 - int (length d) < v \<and> v < 0"
  using assign_descending_range [of k d _ "- 1"]
  unfolding create_dict_of_industries_def by force

lemma create_dict_neutral:
  "k \<notin> set d \<Longrightarrow> k \<in> set n \<Longrightarrow> map_of (create_dict_of_industries g n d) k = Some 0"
  by (simp add: create_dict_of_industries_def assign_descending_other map_of_assign_neutral)

lemma create_dict_growth:
  "k \<notin> set d \<Longrightarrow> k \<notin> set n \<Longrightarrow> k \<in> set g \<Longrightarrow>
   \<exists>v. map_of (create_dict_of_industries g n d) k = Some v \<and> 0 < v \<and> v \<le> int (length g)"
  using assign_descending_range [of k g "[]" "int (length g)"]
  by (simp add: create_dict_of_industries_def assign_descending_other map_of_assign_neutral)

lemma create_dict_absent:
  "k \<notin> set d \<Longrightarrow> k \<notin> set n \<Longrightarrow> k \<notin> set g \<Longrightarrow>
   map_of (create_dict_of_industries g n d) k = None"
  by (simp add: create_dict_of_industries_def assign_descending_other map_of_assign_neutral)

section \<open>Facts about the classifier and the paragraph processor\<close>

lemma classifier_total: "\<exists>l. get_list_of_industries_from_sentence s = Inr l"
proof (cases "str_contains '':'' s")
  case True
  then have "2 \<le> length (str_split s '':'')"
    by (simp add: str_contains_single str_split_present)
  with True show ?thesis
    by (simp add: get_list_of_industries_from_sentence_def getitem_1)
next
  case False
  then show ?thesis by (simp add: get_list_of_industries_from_sentence_def)
qed

lemma scan_industries_filter:
  "scan_industries sentence industries acc
     = acc @ filter (\<lambda>industry. str_contains industry sentence) industries"
  by (induction industries arbitrary: acc) auto

lemma classifier_colon:
  assumes "CHR '':'' \<in> set sentence"
  shows "\<exists>lead industries rest. str_split sentence '':'' = lead # industries # rest
      \<and> get_list_of_industries_from_sentence sentence
          = (if CHR '';'' \<in> set industries
             then Inr (map normalize_segment (str_split industries '';''))
             else Inr [str_strip (str_replace industries [CHR 0x0A] '' '')])"
proof -
  from assms have "2 \<le> length (str_split sentence '':'')" by (rule str_split_present)
  then obtain lead industries rest where s: "str_split sentence '':'' = lead # industries # rest"
    by (cases "str_split sentence '':''"; cases "tl (str_split sentence '':'')") auto
  then have g: "getitem (str_split sentence '':'') 1 = Inr industries"
    by (simp add: getitem_def)
  have "get_list_of_industries_from_sentence sentence
          = (if CHR '';'' \<in> set industries
             then Inr (map normalize_segment (str_split industries '';''))
             else Inr [str_strip (str_replace industries [CHR 0x0A] '' '')])"
    using assms g
    by (simp add: get_list_of_industries_from_sentence_def str_contains_single
        normalize_segment_code)
  with s show ?thesis by blast
qed

lemma process_paragraph_no_period:
  "CHR ''.'' \<notin> set p \<Longrightarrow> process_paragraph p = Inl IndexError"
  by (simp add: process_paragraph_def str_split_absent getitem_def)

lemma process_paragraph_period:
  assumes "CHR ''.'' \<in> set p"
  shows "\<exists>gl dl. get_list_of_industries_from_sentence (str_split p ''.'' ! 0) = Inr gl
           \<and> get_list_of_industries_from_sentence (str_split p ''.'' ! 1) = Inr dl
           \<and> process_paragraph p
               = Inr (create_dict_of_industries gl (list_industries_neutral gl dl) dl)"
proof -
  from assms have len: "2 \<le> length (str_split p ''.'')" by (rule str_split_present)
  then have ne: "str_split p ''.'' \<noteq> []" by auto
  obtain gl where gl: "get_list_of_industries_from_sentence (str_split p ''.'' ! 0) = Inr gl"
    using classifier_total by blast
  obtain dl where dl: "get_list_of_industries_from_sentence (str_split p ''.'' ! 1) = Inr dl"
    using classifier_total by blast
  have "process_paragraph p
          = Inr (create_dict_of_industries gl (list_industries_neutral gl dl) dl)"
    using len ne gl dl by (simp add: process_paragraph_def getitem_0 getitem_1)
  with gl dl show ?thesis by blast
qed

lemma process_paragraph_Inr:
  assumes "process_paragraph p = Inr r"
  shows "CHR ''.'' \<in> set p"
  using assms process_paragraph_no_period [of p] by auto

lemma set_list_industries_neutral:
  "set (list_industries_neutral gl dl) = set LIST_OF_INDUSTRIES - set gl - set dl"
  by (auto simp: list_industries_neutral_def)

lemma distinct_LIST_OF_INDUSTRIES: "distinct LIST_OF_INDUSTRIES"
  by code_simp

lemma length_LIST_OF_INDUSTRIES: "length LIST_OF_INDUSTRIES = 18"
  by (simp add: LIST_OF_INDUSTRIES_def)

lemma distinct_list_industries_neutral: "distinct (list_industries_neutral gl dl)"
  by (simp add: list_industries_neutral_def distinct_LIST_OF_INDUSTRIES)

section \<open>Facts about the main loop\<close>

lemma keys_setitem_add_key:
  "keys (setitem d (LIST_OF_INDICATORS ! (i - 1)) v) = add_key (keys d) i"
  by (simp add: keys_setitem add_key_def map_of_eq_None_iff)

lemma segment_loop_keys:
  "segment_loop is prev d = Inr r \<Longrightarrow> keys r = foldl add_key (keys d) is"
proof (induction "is" arbitrary: prev d)
  case Nil
  then show ?case by auto
next
  case (Cons i "is")
  from Cons.prems obtain splitted v where
    "segment_loop is splitted (setitem d (LIST_OF_INDICATORS ! (i - 1)) v) = Inr r"
    by (auto simp: Let_def split: sum.splits)
  from Cons.IH [OF this]
  have "keys r = foldl add_key (add_key (keys d) i) is"
    by (simp only: keys_setitem_add_key)
  then show ?case by simp
qed

lemma loop_keys_closed:
  "foldl add_key [] [1 ..< length LIST_OF_INDICATORS] = butlast LIST_OF_INDICATORS"
  by code_simp

lemma length_butlast_indicators: "length (butlast LIST_OF_INDICATORS) = 10"
  by code_simp

lemma last_indicator_not_in_butlast: "''BUYING POLICY'' \<notin> set (butlast LIST_OF_INDICATORS)"
  by code_simp

lemma segment_loop_Cons:
  assumes "segment_loop (i # rest) previous_text d = Inr r"
  shows "\<exists>remaining verbose paragraph report.
      getitem previous_text 1 = Inr remaining
    \<and> getitem (str_split remaining (LIST_OF_INDICATORS ! i)) 0 = Inr verbose
    \<and> getitem (str_split verbose (''.'' @ [CHR 0x0A]))
         (if i = length LIST_OF_INDICATORS - 1 then - 3 else - 2) = Inr paragraph
    \<and> process_paragraph paragraph = Inr report
    \<and> segment_loop rest (str_split remaining (LIST_OF_INDICATORS ! i))
         (setitem d (LIST_OF_INDICATORS ! (i - 1)) report) = Inr r"
  using assms by (auto simp: Let_def split: sum.splits split del: if_split)

lemma segment_loop_other:
  "segment_loop is previous_text d = Inr r \<Longrightarrow>
   k \<notin> set (map (\<lambda>i. LIST_OF_INDICATORS ! (i - 1)) is) \<Longrightarrow> map_of r k = map_of d k"
proof (induction "is" arbitrary: previous_text d)
  case Nil
  then show ?case by simp
next
  case (Cons i "is")
  from segment_loop_Cons [OF Cons.prems(1)] obtain remaining report where
    s: "segment_loop is (str_split remaining (LIST_OF_INDICATORS ! i))
         (setitem d (LIST_OF_INDICATORS ! (i - 1)) report) = Inr r"
    by blast
  from Cons.prems(2) have "k \<notin> set (map (\<lambda>i. LIST_OF_INDICATORS ! (i - 1)) is)"
    and ne: "k \<noteq> LIST_OF_INDICATORS ! (i - 1)" by auto
  from Cons.IH [OF s this(1)] ne show ?case by (simp add: map_of_setitem)
qed

lemma segment_loop_values:
  assumes "segment_loop is previous_text d = Inr r"
    and "distinct (map (\<lambda>i. LIST_OF_INDICATORS ! (i - 1)) is)"
    and "j < length is"
  shows "\<exists>cursor remaining verbose paragraph report.
      previous_text_after previous_text (take j is) = Inr cursor
    \<and> getitem cursor 1 = Inr remaining
    \<and> getitem (str_split remaining (LIST_OF_INDICATORS ! (is ! j))) 0 = Inr verbose
    \<and> getitem (str_split verbose (''.'' @ [CHR 0x0A]))
         (if is ! j = length LIST_OF_INDICATORS - 1 then - 3 else - 2) = Inr paragraph
    \<and> process_paragraph paragraph = Inr report
    \<and> map_of r (LIST_OF_INDICATORS ! (is ! j - 1)) = Some report"
  using assms
proof (induction "is" arbitrary: previous_text d j)
  case Nil
  then show ?case by simp
next
  case (Cons i "is")
  from segment_loop_Cons [OF Cons.prems(1)] obtain remaining verbose para report where
    g: "getitem previous_text 1 = Inr remaining"
    and v: "getitem (str_split remaining (LIST_OF_INDICATORS ! i)) 0 = Inr verbose"
    and p: "getitem (str_split verbose (''.'' @ [CHR 0x0A]))
         (if i = length LIST_OF_INDICATORS - 1 then - 3 else - 2) = Inr para"
    and pp: "process_paragraph para = Inr report"
    and s: "segment_loop is (str_split remaining (LIST_OF_INDICATORS ! i))
         (setitem d (LIST_OF_INDICATORS ! (i - 1)) report) = Inr r"
    by blast
  from Cons.prems(2) have dis: "distinct (map (\<lambda>i. LIST_OF_INDICATORS ! (i - 1)) is)"
    and fresh: "LIST_OF_INDICATORS ! (i - 1) \<notin> set (map (\<lambda>i. LIST_OF_INDICATORS ! (i - 1)) is)"
    by auto
  show ?case
  proof (cases j)
    case 0
    from segment_loop_other [OF s fresh]
    have "map_of r (LIST_OF_INDICATORS ! (i - 1)) = Some report"
      by (simp add: map_of_setitem)
    with 0 g v p pp show ?thesis by auto
  next
    case (Suc j')
    with Cons.prems(3) have "j' < length is" by simp
    from Cons.IH [OF s dis this] g Suc show ?thesis by auto
  qed
qed

lemma loop_keys_distinct:
  "distinct (map (\<lambda>i. LIST_OF_INDICATORS ! (i - 1)) [1 ..< length LIST_OF_INDICATORS])"
  by code_simp

lemma length_LIST_OF_INDICATORS: "length LIST_OF_INDICATORS = 11"
  by (simp add: LIST_OF_INDICATORS_def)

lemma last_two_indicators:
  "LIST_OF_INDICATORS ! 9 = ''IMPORTS'' \<and> LIST_OF_INDICATORS ! 10 = ''BUYING POLICY''"
  by (simp add: LIST_OF_INDICATORS_def)

section \<open>The claims\<close>

text \<open>
  Claim C1, as the code has it. When \<open>process_paragraph\<close> returns a report, its keys
  are pairwise distinct and are exactly the 18 fixed industries together with every name
  the classifier took from the growth fragment and from the decline fragment. When all
  those names are fixed industries, the key set is the fixed set and the report has 18
  entries; when moreover no name was taken twice, every fixed industry stands exactly
  once in the growth list, the neutral list and the decline list taken together.
  The claim as stated (the key set is always the fixed set) fails on \<open>para_unknown\<close>,
  where the unchecked name \<open>Gadgets\<close> becomes a 19th key.
\<close>

theorem key_set_of_report:
  assumes "process_paragraph para_text = Inr r"
    and "get_list_of_industries_from_sentence (str_split para_text ''.'' ! 0) = Inr gl"
    and "get_list_of_industries_from_sentence (str_split para_text ''.'' ! 1) = Inr dl"
  shows "distinct (keys r)
    \<and> set (keys r) = set LIST_OF_INDUSTRIES \<union> set gl \<union> set dl
    \<and> (set gl \<union> set dl \<subseteq> set LIST_OF_INDUSTRIES \<longrightarrow>
         set (keys r) = set LIST_OF_INDUSTRIES \<and> length r = 18)
    \<and> (set gl \<union> set dl \<subseteq> set LIST_OF_INDUSTRIES \<and> distinct (gl @ dl) \<longrightarrow>
         distinct (gl @ list_industries_neutral gl dl @ dl)
         \<and> set (gl @ list_industries_neutral gl dl @ dl) = set LIST_OF_INDUSTRIES)"
proof -
  from assms(1) have "CHR ''.'' \<in> set para_text" by (rule process_paragraph_Inr)
  from process_paragraph_period [OF this] assms
  have r: "r = create_dict_of_industries gl (list_industries_neutral gl dl) dl" by auto
  have d: "distinct (keys r)" unfolding r by (rule distinct_keys_create_dict)
  have s: "set (keys r) = set LIST_OF_INDUSTRIES \<union> set gl \<union> set dl"
    unfolding r by (auto simp: set_keys_create_dict set_list_industries_neutral)
  have l: "length r = 18" if "set gl \<union> set dl \<subseteq> set LIST_OF_INDUSTRIES"
  proof -
    from that s have "set (keys r) = set LIST_OF_INDUSTRIES" by auto
    then have "card (set (keys r)) = card (set LIST_OF_INDUSTRIES)" by (rule arg_cong)
    moreover have "card (set (keys r)) = length (keys r)" using d by (rule distinct_card)
    moreover have "card (set LIST_OF_INDUSTRIES) = length LIST_OF_INDUSTRIES"
      using distinct_LIST_OF_INDUSTRIES by (rule distinct_card)
    ultimately have "length (keys r) = length LIST_OF_INDUSTRIES" by linarith
    then show ?thesis by (simp add: length_LIST_OF_INDUSTRIES)
  qed
  have g: "distinct (gl @ list_industries_neutral gl dl @ dl)" if "distinct (gl @ dl)"
    using that by (auto simp: distinct_list_industries_neutral set_list_industries_neutral)
  have "set (gl @ list_industries_neutral gl dl @ dl) = set LIST_OF_INDUSTRIES"
    if "set gl \<union> set dl \<subseteq> set LIST_OF_INDUSTRIES"
    using that by (auto simp: set_list_industries_neutral)
  with d s l g show ?thesis by auto
qed

theorem key_set_of_report_witness:
  "\<exists>r. process_paragraph para_ok = Inr r
     \<and> get_list_of_industries_from_sentence (str_split para_ok ''.'' ! 0)
         = Inr [''Machinery'', ''Wood Products'']
     \<and> get_list_of_industries_from_sentence (str_split para_ok ''.'' ! 1)
         = Inr [''Paper Products'']
     \<and> distinct (keys r) \<and> set (keys r) = set LIST_OF_INDUSTRIES \<and> length r = 18"
proof -
  have g: "get_list_of_industries_from_sentence (str_split para_ok ''.'' ! 0)
         = Inr [''Machinery'', ''Wood Products'']" by code_simp
  have d: "get_list_of_industries_from_sentence (str_split para_ok ''.'' ! 1)
         = Inr [''Paper Products'']" by code_simp
  have sub: "set [''Machinery'', ''Wood Products''] \<union> set [''Paper Products'']
               \<subseteq> set LIST_OF_INDUSTRIES" by code_simp
  have "\<not> isl (process_paragraph para_ok)" by code_simp
  then obtain r where r: "process_paragraph para_ok = Inr r"
    by (cases "process_paragraph para_ok") auto
  from key_set_of_report [OF r g d] sub
  have "distinct (keys r) \<and> set (keys r) = set LIST_OF_INDUSTRIES \<and> length r = 18" by blast
  with r g d show ?thesis by blast
qed

theorem key_set_counterexample:
  "\<not> isl (process_paragraph para_unknown)
   \<and> ''Gadgets'' \<in> set (keys (projr (process_paragraph para_unknown)))
   \<and> ''Gadgets'' \<notin> set LIST_OF_INDUSTRIES
   \<and> length (projr (process_paragraph para_unknown)) = 19"
  by code_simp

text \<open>
  Claim C2, as the code has it. When the segmenter returns a report, its keys are the
  first ten indicator labels in their fixed order: one entry for each label but the last,
  and none for \<open>BUYING POLICY\<close>. The entry stored under label \<open>i - 1\<close>, for \<open>i\<close> from 1
  to 10, is the IndicatorReport \<open>process_paragraph\<close> returns on the paragraph of
  iteration \<open>i\<close>: the cursor after the iterations before \<open>i\<close> is read at index 1, that
  text is split on label \<open>i\<close>, piece 0 of it is split on a period followed by a newline,
  and the paragraph is the second piece from the end (the third from the end when
  \<open>i\<close> is 10). In particular the entry of \<open>IMPORTS\<close> comes from the text that ends where
  \<open>BUYING POLICY\<close> first occurs (or where the text ends): the last label only closes that
  segment. The claim as stated (eleven entries) fails on \<open>example_report\<close>, a text with
  the eleven labels in order.
\<close>

theorem segmenter_entries:
  assumes "segment_report text = Inr r"
  shows "keys r = butlast LIST_OF_INDICATORS \<and> length r = 10
     \<and> ''BUYING POLICY'' \<notin> set (keys r)
     \<and> (\<forall>i \<in> {1 .. 10}. \<exists>previous_text remaining verbose paragraph report.
           previous_text_after (str_split text (LIST_OF_INDICATORS ! 0)) [1 ..< i]
             = Inr previous_text
         \<and> getitem previous_text 1 = Inr remaining
         \<and> getitem (str_split remaining (LIST_OF_INDICATORS ! i)) 0 = Inr verbose
         \<and> getitem (str_split verbose (''.'' @ [CHR 0x0A])) (if i = 10 then - 3 else - 2)
             = Inr paragraph
         \<and> process_paragraph paragraph = Inr report
         \<and> map_of r (LIST_OF_INDICATORS ! (i - 1)) = Some report)
     \<and> (\<exists>previous_text remaining verbose paragraph report.
           previous_text_after (str_split text (LIST_OF_INDICATORS ! 0)) [1 ..< 10]
             = Inr previous_text
         \<and> getitem previous_text 1 = Inr remaining
         \<and> getitem (str_split remaining ''BUYING POLICY'') 0 = Inr verbose
         \<and> (\<exists>rest. remaining = verbose @ rest
                \<and> (rest = [] \<or> startswith rest ''BUYING POLICY''))
         \<and> getitem (str_split verbose (''.'' @ [CHR 0x0A])) (- 3) = Inr paragraph
         \<and> process_paragraph paragraph = Inr report
         \<and> map_of r ''IMPORTS'' = Some report)"
proof -
  from assms have loop: "segment_loop [1 ..< 11] (str_split text (LIST_OF_INDICATORS ! 0)) [] = Inr r"
    by (simp add: segment_report_def length_LIST_OF_INDICATORS)
  from assms have "keys r = foldl add_key [] [1 ..< length LIST_OF_INDICATORS]"
    unfolding segment_report_def using segment_loop_keys by fastforce
  then have k: "keys r = butlast LIST_OF_INDICATORS" by (simp only: loop_keys_closed)
  have "length r = length (keys r)" by simp
  also have "\<dots> = length (butlast LIST_OF_INDICATORS)" by (simp only: k)
  also have "\<dots> = 10" by (rule length_butlast_indicators)
  finally have l: "length r = 10" .
  have b: "''BUYING POLICY'' \<notin> set (keys r)"
    by (simp only: k last_indicator_not_in_butlast not_False_eq_True)
  have dis: "distinct (map (\<lambda>i. LIST_OF_INDICATORS ! (i - 1)) [1 ..< 11])"
    using loop_keys_distinct by (simp add: length_LIST_OF_INDICATORS)
  have each: "\<exists>previous_text remaining verbose paragraph report.
           previous_text_after (str_split text (LIST_OF_INDICATORS ! 0)) [1 ..< i]
             = Inr previous_text
         \<and> getitem previous_text 1 = Inr remaining
         \<and> getitem (str_split remaining (LIST_OF_INDICATORS ! i)) 0 = Inr verbose
         \<and> getitem (str_split verbose (''.'' @ [CHR 0x0A])) (if i = 10 then - 3 else - 2)
             = Inr paragraph
         \<and> process_paragraph paragraph = Inr report
         \<and> map_of r (LIST_OF_INDICATORS ! (i - 1)) = Some report"
    if i: "i \<in> {1 .. 10}" for i
  proof -
    from i have j: "i - 1 < length [1 ..< 11]" by (simp, arith)
    from i have n: "[1 ..< 11] ! (i - 1) = i" by simp
    from i have t: "take (i - 1) [1 ..< 11] = [1 ..< i]" by simp
    from segment_loop_values [OF loop dis j] show ?thesis
      by (simp only: n t length_LIST_OF_INDICATORS) simp
  qed
  have "(10::nat) \<in> {1 .. 10}" by simp
  from each [OF this] obtain previous_text remaining verbose para report where
    c: "previous_text_after (str_split text (LIST_OF_INDICATORS ! 0)) [1 ..< 10]
          = Inr previous_text"
    and g: "getitem previous_text 1 = Inr remaining"
    and v: "getitem (str_split remaining (LIST_OF_INDICATORS ! 10)) 0 = Inr verbose"
    and p: "getitem (str_split verbose (''.'' @ [CHR 0x0A])) (- 3) = Inr para"
    and pp: "process_paragraph para = Inr report"
    and m: "map_of r (LIST_OF_INDICATORS ! 9) = Some report"
    by auto
  have bp: "LIST_OF_INDICATORS ! 10 = ''BUYING POLICY''"
    and im: "LIST_OF_INDICATORS ! 9 = ''IMPORTS''"
    using last_two_indicators by simp_all
  from v have v': "getitem (str_split remaining ''BUYING POLICY'') 0 = Inr verbose"
    by (simp only: bp)
  from m have m': "map_of r ''IMPORTS'' = Some report" by (simp only: im)
  have "''BUYING POLICY'' \<noteq> []" by simp
  from first_piece_is_prefix [OF v' this] obtain rest where
    f1: "remaining = verbose @ rest"
    and f2: "rest = [] \<or> startswith rest ''BUYING POLICY''"
    by blast
  have last_entry: "\<exists>previous_text remaining verbose paragraph report.
           previous_text_after (str_split text (LIST_OF_INDICATORS ! 0)) [1 ..< 10]
             = Inr previous_text
         \<and> getitem previous_text 1 = Inr remaining
         \<and> getitem (str_split remaining ''BUYING POLICY'') 0 = Inr verbose
         \<and> (\<exists>rest. remaining = verbose @ rest
                \<and> (rest = [] \<or> startswith rest ''BUYING POLICY''))
         \<and> getitem (str_split verbose (''.'' @ [CHR 0x0A])) (- 3) = Inr paragraph
         \<and> process_paragraph paragraph = Inr report
         \<and> map_of r ''IMPORTS'' = Some report"
    using c g v' f1 f2 p pp m' by (intro exI conjI) assumption+
  have all: "\<forall>i \<in> {1 .. 10}. \<exists>previous_text remaining verbose paragraph report.
           previous_text_after (str_split text (LIST_OF_INDICATORS ! 0)) [1 ..< i]
             = Inr previous_text
         \<and> getitem previous_text 1 = Inr remaining
         \<and> getitem (str_split remaining (LIST_OF_INDICATORS ! i)) 0 = Inr verbose
         \<and> getitem (str_split verbose (''.'' @ [CHR 0x0A])) (if i = 10 then - 3 else - 2)
             = Inr paragraph
         \<and> process_paragraph paragraph = Inr report
         \<and> map_of r (LIST_OF_INDICATORS ! (i - 1)) = Some report"
    by (rule ballI) (rule each)
  show ?thesis
    by (rule conjI [OF k conjI [OF l conjI [OF b conjI [OF all last_entry]]]])
qed

theorem segmenter_entries_witness:
  "\<exists>r. segment_report example_report = Inr r \<and> keys r = butlast LIST_OF_INDICATORS
     \<and> length r = 10 \<and> ''BUYING POLICY'' \<notin> set (keys r)
     \<and> (\<exists>paragraph report. process_paragraph paragraph = Inr report
           \<and> map_of r ''IMPORTS'' = Some report)"
proof -
  have "\<not> isl (segment_report example_report)" by code_simp
  then obtain r where r: "segment_report example_report = Inr r"
    by (cases "segment_report example_report") auto
  note t = segmenter_entries [OF r]
  note k = t [THEN conjunct1]
  note l = t [THEN conjunct2, THEN conjunct1]
  note b = t [THEN conjunct2, THEN conjunct2, THEN conjunct1]
  from t [THEN conjunct2, THEN conjunct2, THEN conjunct2, THEN conjunct2]
  obtain para report where pp: "process_paragraph para = Inr report"
    and m: "map_of r ''IMPORTS'' = Some report"
    by blast
  show ?thesis
    using r k l b pp m by (intro exI conjI) assumption+
qed

theorem segmenter_counterexample:
  "\<not> isl (segment_report example_report)
   \<and> length (projr (segment_report example_report)) = 10
   \<and> map_of (projr (segment_report example_report)) ''BUYING POLICY'' = None
   \<and> length LIST_OF_INDICATORS = 11"
  by code_simp

text \<open>
  Claim C3, as the code has it. For a report returned by \<open>process_paragraph\<close> and an
  industry with rank \<open>rank\<close> in it: the rank is negative exactly when the industry was
  taken from the decline fragment, zero exactly when it was taken from neither fragment,
  and positive exactly when it was taken from the growth fragment and not from the
  decline fragment. The claim as stated (positive exactly when taken from the growth
  fragment) fails on \<open>para_both\<close>: the decline loop runs last and overwrites the rank.
\<close>

theorem rank_sign:
  assumes "process_paragraph para_text = Inr r"
    and "get_list_of_industries_from_sentence (str_split para_text ''.'' ! 0) = Inr gl"
    and "get_list_of_industries_from_sentence (str_split para_text ''.'' ! 1) = Inr dl"
    and "map_of r industry = Some rank"
  shows "(0 < rank \<longleftrightarrow> industry \<in> set gl \<and> industry \<notin> set dl)
       \<and> (rank = 0 \<longleftrightarrow> industry \<notin> set gl \<and> industry \<notin> set dl)
       \<and> (rank < 0 \<longleftrightarrow> industry \<in> set dl)"
proof -
  let ?n = "list_industries_neutral gl dl"
  from assms(1) have "CHR ''.'' \<in> set para_text" by (rule process_paragraph_Inr)
  from process_paragraph_period [OF this] assms(1-3)
  have r: "r = create_dict_of_industries gl ?n dl" by auto
  have n: "industry \<in> set ?n \<Longrightarrow> industry \<notin> set gl \<and> industry \<notin> set dl"
    by (simp add: set_list_industries_neutral)
  consider (decline) "industry \<in> set dl"
    | (neutral) "industry \<notin> set dl" "industry \<in> set ?n"
    | (growth) "industry \<notin> set dl" "industry \<notin> set ?n" "industry \<in> set gl"
    | (absent) "industry \<notin> set dl" "industry \<notin> set ?n" "industry \<notin> set gl"
    by blast
  then show ?thesis
  proof cases
    case decline
    from create_dict_decline [OF decline, of gl ?n] assms(4) have "rank < 0"
      unfolding r by auto
    with decline show ?thesis by auto
  next
    case neutral
    from create_dict_neutral [OF neutral, of gl] assms(4) have "rank = 0"
      unfolding r by simp
    with neutral n show ?thesis by auto
  next
    case growth
    from create_dict_growth [OF growth] assms(4) have "0 < rank"
      unfolding r by auto
    with growth show ?thesis by auto
  next
    case absent
    from create_dict_absent [OF absent] assms(4) show ?thesis
      unfolding r by simp
  qed
qed

theorem rank_sign_witness:
  "\<exists>r. process_paragraph para_ok = Inr r
     \<and> get_list_of_industries_from_sentence (str_split para_ok ''.'' ! 0)
         = Inr [''Machinery'', ''Wood Products'']
     \<and> get_list_of_industries_from_sentence (str_split para_ok ''.'' ! 1)
         = Inr [''Paper Products'']
     \<and> map_of r ''Paper Products'' = Some (- 1)
     \<and> ''Paper Products'' \<in> set [''Paper Products'']"
proof -
  have g: "get_list_of_industries_from_sentence (str_split para_ok ''.'' ! 0)
         = Inr [''Machinery'', ''Wood Products'']" by code_simp
  have d: "get_list_of_industries_from_sentence (str_split para_ok ''.'' ! 1)
         = Inr [''Paper Products'']" by code_simp
  have v: "map_of (projr (process_paragraph para_ok)) ''Paper Products'' = Some (- 1)"
    by code_simp
  have "\<not> isl (process_paragraph para_ok)" by code_simp
  then obtain r where r: "process_paragraph para_ok = Inr r"
    by (cases "process_paragraph para_ok") auto
  with v have v': "map_of r ''Paper Products'' = Some (- 1)" by simp
  from rank_sign [OF r g d v'] have "''Paper Products'' \<in> set [''Paper Products'']" by simp
  with r g d v' show ?thesis by blast
qed

theorem rank_sign_counterexample:
  "\<not> isl (process_paragraph para_both)
   \<and> get_list_of_industries_from_sentence (str_split para_both ''.'' ! 0)
       = Inr [''Machinery'', ''Wood Products'']
   \<and> map_of (projr (process_paragraph para_both)) ''Machinery'' = Some (- 1)"
  by code_simp

text \<open>
  Claim C4, as the code has it. In the dictionary \<open>create_dict_of_industries\<close> builds,
  the growth industry at position \<open>i\<close> (from 0) has rank \<open>len(list_growth) - i\<close>, every
  neutral industry has rank 0, and the decline industry at position \<open>k\<close> has rank
  \<open>-1 - k\<close>, each provided the name does not occur again later (further on in its own
  list or in a list assigned after it): a later assignment to the same key replaces the
  rank. The claim as stated (for all lists) fails when a growth industry is also in the
  decline list.
\<close>

theorem rank_magnitudes:
  "(\<forall>i < length list_growth.
      list_growth ! i \<notin> set (drop (Suc i) list_growth) \<union> set list_neutral \<union> set list_decrease \<longrightarrow>
      map_of (create_dict_of_industries list_growth list_neutral list_decrease) (list_growth ! i)
        = Some (int (length list_growth) - int i))
   \<and> (\<forall>j < length list_neutral.
      list_neutral ! j \<notin> set list_decrease \<longrightarrow>
      map_of (create_dict_of_industries list_growth list_neutral list_decrease) (list_neutral ! j)
        = Some 0)
   \<and> (\<forall>k < length list_decrease.
      list_decrease ! k \<notin> set (drop (Suc k) list_decrease) \<longrightarrow>
      map_of (create_dict_of_industries list_growth list_neutral list_decrease) (list_decrease ! k)
        = Some (- 1 - int k))"
proof (intro conjI allI impI)
  fix i assume "i < length list_growth"
    and "list_growth ! i \<notin> set (drop (Suc i) list_growth) \<union> set list_neutral \<union> set list_decrease"
  then show "map_of (create_dict_of_industries list_growth list_neutral list_decrease)
               (list_growth ! i) = Some (int (length list_growth) - int i)"
    by (simp add: create_dict_of_industries_def assign_descending_other map_of_assign_neutral
        assign_descending_last_occurrence)
next
  fix j assume "j < length list_neutral" and "list_neutral ! j \<notin> set list_decrease"
  then show "map_of (create_dict_of_industries list_growth list_neutral list_decrease)
               (list_neutral ! j) = Some 0"
    by (simp add: create_dict_neutral)
next
  fix k assume "k < length list_decrease"
    and "list_decrease ! k \<notin> set (drop (Suc k) list_decrease)"
  then show "map_of (create_dict_of_industries list_growth list_neutral list_decrease)
               (list_decrease ! k) = Some (- 1 - int k)"
    by (simp add: create_dict_of_industries_def assign_descending_last_occurrence)
qed

theorem rank_magnitudes_witness:
  "map_of (create_dict_of_industries [''Textile Mills'', ''Primary Metals'']
             [''Wood Products''] [''Machinery'', ''Paper Products'']) ''Textile Mills'' = Some 2
   \<and> map_of (create_dict_of_industries [''Textile Mills'', ''Primary Metals'']
             [''Wood Products''] [''Machinery'', ''Paper Products'']) ''Primary Metals'' = Some 1
   \<and> map_of (create_dict_of_industries [''Textile Mills'', ''Primary Metals'']
             [''Wood Products''] [''Machinery'', ''Paper Products'']) ''Wood Products'' = Some 0
   \<and> map_of (create_dict_of_industries [''Textile Mills'', ''Primary Metals'']
             [''Wood Products''] [''Machinery'', ''Paper Products'']) ''Machinery'' = Some (- 1)
   \<and> map_of (create_dict_of_industries [''Textile Mills'', ''Primary Metals'']
             [''Wood Products''] [''Machinery'', ''Paper Products'']) ''Paper Products'' = Some (- 2)"
proof -
  note t = rank_magnitudes [of "[''Textile Mills'', ''Primary Metals'']" "[''Wood Products'']"
      "[''Machinery'', ''Paper Products'']"]
  note g = t [THEN conjunct1, rule_format]
  note n = t [THEN conjunct2, THEN conjunct1, rule_format]
  note d = t [THEN conjunct2, THEN conjunct2, rule_format]
  show ?thesis
    using g [of 0] g [of 1] n [of 0] d [of 0] d [of 1] by simp
qed

theorem rank_magnitudes_counterexample:
  "map_of (create_dict_of_industries [''Machinery'', ''Wood Products'']
             [''Textile Mills''] [''Machinery'']) ''Machinery'' = Some (- 1)
   \<and> [''Machinery'', ''Wood Products''] ! 0 = ''Machinery''
   \<and> int (length [''Machinery'', ''Wood Products'']) = 2"
  by code_simp

text \<open>
  Claim C5, as the code has it. For a sentence with a colon, the text between the first
  and the second colon is the list of names. When it holds a semicolon, the result is
  its pieces between semicolons, each normalized as the specification says
  (\<open>normalize_segment\<close>); when it holds none, the result is the one name with newlines
  turned into spaces and whitespace stripped, and \<open>" and "\<close> is left in place. Either
  way no name in the result holds a newline or starts or ends with whitespace. The
  claim as stated (\<open>" and "\<close> is removed in the single-name case too) fails on
  \<open>sentence_one_name\<close>.
\<close>

theorem colon_path_normalization:
  assumes "CHR '':'' \<in> set sentence"
  shows "\<exists>lead industries rest names.
      str_split sentence '':'' = lead # industries # rest
      \<and> get_list_of_industries_from_sentence sentence = Inr names
      \<and> (if CHR '';'' \<in> set industries
         then names = map normalize_segment (str_split industries '';'')
         else names = [str_strip (map (\<lambda>c. if c = CHR 0x0A then CHR '' '' else c) industries)])
      \<and> (\<forall>name \<in> set names. CHR 0x0A \<notin> set name
            \<and> (name = [] \<or> (\<not> isspace (hd name) \<and> \<not> isspace (last name))))"
proof -
  from classifier_colon [OF assms] obtain lead industries rest where
    s: "str_split sentence '':'' = lead # industries # rest" and
    g: "get_list_of_industries_from_sentence sentence
          = (if CHR '';'' \<in> set industries
             then Inr (map normalize_segment (str_split industries '';''))
             else Inr [str_strip (str_replace industries [CHR 0x0A] '' '')])"
    by blast
  define names where "names = (if CHR '';'' \<in> set industries
             then map normalize_segment (str_split industries '';'')
             else [str_strip (str_replace industries [CHR 0x0A] '' '')])"
  from g have gn: "get_list_of_industries_from_sentence sentence = Inr names"
    by (simp add: names_def)
  have shape: "if CHR '';'' \<in> set industries
         then names = map normalize_segment (str_split industries '';'')
         else names = [str_strip (map (\<lambda>c. if c = CHR 0x0A then CHR '' '' else c) industries)]"
    by (simp add: names_def str_replace_char)
  have each: "\<exists>t. name = str_strip (str_replace t [CHR 0x0A] '' '')" if "name \<in> set names" for name
    using that by (auto simp: names_def normalize_segment_code [symmetric] split: if_splits)
  have "CHR 0x0A \<notin> set name \<and> (name = [] \<or> (\<not> isspace (hd name) \<and> \<not> isspace (last name)))"
    if "name \<in> set names" for name
    using each [OF that] no_newline_after_replace str_strip_ends by metis
  with s gn shape show ?thesis by blast
qed

theorem colon_path_normalization_witness:
  "CHR '':'' \<in> set sentence_two_names
   \<and> get_list_of_industries_from_sentence sentence_two_names
       = Inr [''Apparel, Leather & Allied Products'', ''Machinery'']
   \<and> (\<exists>lead industries rest.
        str_split sentence_two_names '':'' = lead # industries # rest
        \<and> CHR '';'' \<in> set industries
        \<and> map normalize_segment (str_split industries '';'')
            = [''Apparel, Leather & Allied Products'', ''Machinery''])"
proof -
  have h: "CHR '':'' \<in> set sentence_two_names" by code_simp
  have e: "get_list_of_industries_from_sentence sentence_two_names
       = Inr [''Apparel, Leather & Allied Products'', ''Machinery'']" by code_simp
  have sp: "str_split sentence_two_names '':''
       = [''Growth was reported by'',
          '' Apparel, Leather & Allied'' @ [CHR 0x0A] @ ''Products; and Machinery'']" by code_simp
  have semi: "CHR '';'' \<in> set ('' Apparel, Leather & Allied'' @ [CHR 0x0A] @ ''Products; and Machinery'')"
    by simp
  from colon_path_normalization [OF h] obtain lead industries rest names where
    "str_split sentence_two_names '':'' = lead # industries # rest"
    "get_list_of_industries_from_sentence sentence_two_names = Inr names"
    "if CHR '';'' \<in> set industries
         then names = map normalize_segment (str_split industries '';'')
         else names = [str_strip (map (\<lambda>c. if c = CHR 0x0A then CHR '' '' else c) industries)]"
    by blast
  with e sp semi have "str_split sentence_two_names '':'' = lead # industries # rest
        \<and> CHR '';'' \<in> set industries
        \<and> map normalize_segment (str_split industries '';'')
            = [''Apparel, Leather & Allied Products'', ''Machinery'']"
    by (auto split: if_splits)
  then have ex: "\<exists>lead industries rest.
        str_split sentence_two_names '':'' = lead # industries # rest
        \<and> CHR '';'' \<in> set industries
        \<and> map normalize_segment (str_split industries '';'')
            = [''Apparel, Leather & Allied Products'', ''Machinery'']"
    by (intro exI)
  show ?thesis by (rule conjI [OF h conjI [OF e ex]])
qed

theorem single_name_counterexample:
  "get_list_of_industries_from_sentence sentence_one_name
     = Inr [''Food, Beverage and Tobacco Products'']
   \<and> str_split sentence_one_name '':''
       = [''The only industry reporting growth is'', '' Food, Beverage and Tobacco Products'']
   \<and> normalize_segment '' Food, Beverage and Tobacco Products''
       = ''Food, BeverageTobacco Products''"
  by code_simp

text \<open>
  Claim C6. On every sentence whose text after its only colon is
  \<open>Textile Mills; Primary Metals; and Machinery\<close> the classifier returns the three names
  in that order, and on \<open>: Furniture & Related Products\<close> it returns that one name.
\<close>

theorem classifier_examples:
  "(CHR '':'' \<notin> set lead \<longrightarrow>
      get_list_of_industries_from_sentence
        (lead @ '':'' @ ''Textile Mills; Primary Metals; and Machinery'')
      = Inr [''Textile Mills'', ''Primary Metals'', ''Machinery''])
   \<and> get_list_of_industries_from_sentence '': Furniture & Related Products''
       = Inr [''Furniture & Related Products'']"
proof (intro conjI impI)
  let ?t = "''Textile Mills; Primary Metals; and Machinery''"
  assume lead: "CHR '':'' \<notin> set lead"
  have "CHR '':'' \<notin> set ?t" by simp
  then have "str_split ?t '':'' = [?t]" by (rule str_split_absent)
  with lead have s: "str_split (lead @ '':'' @ ?t) '':'' = [lead, ?t]"
    using str_split_first [OF lead, of ?t] by simp
  have c: "CHR '':'' \<in> set (lead @ '':'' @ ?t)" by simp
  from classifier_colon [OF c] s
  have "get_list_of_industries_from_sentence (lead @ '':'' @ ?t)
          = (if CHR '';'' \<in> set ?t
             then Inr (map normalize_segment (str_split ?t '';''))
             else Inr [str_strip (str_replace ?t [CHR 0x0A] '' '')])"
    by auto
  also have "\<dots> = Inr [''Textile Mills'', ''Primary Metals'', ''Machinery'']"
    by code_simp
  finally show "get_list_of_industries_from_sentence (lead @ '':'' @ ?t)
      = Inr [''Textile Mills'', ''Primary Metals'', ''Machinery'']" .
next
  show "get_list_of_industries_from_sentence '': Furniture & Related Products''
       = Inr [''Furniture & Related Products'']"
    by code_simp
qed

theorem classifier_examples_witness:
  "CHR '':'' \<notin> set ''The industries reporting growth are''
   \<and> get_list_of_industries_from_sentence
        (''The industries reporting growth are'' @ '':''
           @ ''Textile Mills; Primary Metals; and Machinery'')
      = Inr [''Textile Mills'', ''Primary Metals'', ''Machinery'']"
proof -
  have h: "CHR '':'' \<notin> set ''The industries reporting growth are''" by simp
  from classifier_examples [of "''The industries reporting growth are''"] h
  show ?thesis by blast
qed

text \<open>
  Claim C7. For a sentence without a colon the classifier returns the industries of the
  reference list whose name occurs in the sentence (the sentence is some text, the
  name, some text), in the order of the reference list.
\<close>

theorem classifier_without_colon:
  assumes "CHR '':'' \<notin> set sentence"
  shows "get_list_of_industries_from_sentence sentence
           = Inr (filter (\<lambda>industry. \<exists>a b. sentence = a @ industry @ b) LIST_OF_INDUSTRIES)"
proof -
  from assms have "\<not> str_contains '':'' sentence" by (simp add: str_contains_single)
  then have "get_list_of_industries_from_sentence sentence
               = Inr (scan_industries sentence LIST_OF_INDUSTRIES [])"
    by (simp add: get_list_of_industries_from_sentence_def)
  moreover have "scan_industries sentence LIST_OF_INDUSTRIES []
      = filter (\<lambda>industry. str_contains industry sentence) LIST_OF_INDUSTRIES"
    by (simp add: scan_industries_filter)
  moreover have "filter (\<lambda>industry. str_contains industry sentence) LIST_OF_INDUSTRIES
      = filter (\<lambda>industry. \<exists>a b. sentence = a @ industry @ b) LIST_OF_INDUSTRIES"
    by (simp only: str_contains_iff)
  ultimately show ?thesis by simp
qed

theorem classifier_without_colon_witness:
  "CHR '':'' \<notin> set ''Wood Products and Machinery grew''
   \<and> get_list_of_industries_from_sentence ''Wood Products and Machinery grew''
       = Inr [''Machinery'', ''Wood Products'']
   \<and> filter (\<lambda>industry. \<exists>a b. ''Wood Products and Machinery grew'' = a @ industry @ b)
        LIST_OF_INDUSTRIES = [''Machinery'', ''Wood Products'']"
proof -
  have h: "CHR '':'' \<notin> set ''Wood Products and Machinery grew''" by simp
  have e: "get_list_of_industries_from_sentence ''Wood Products and Machinery grew''
       = Inr [''Machinery'', ''Wood Products'']" by code_simp
  from classifier_without_colon [OF h] e h show ?thesis by simp
qed

text \<open>
  Claim C8. The split of a paragraph on the period has fewer than two pieces exactly when
  the paragraph holds no period. Then \<open>process_paragraph\<close> raises \<open>IndexError\<close>; with a
  period it raises nothing and returns the dictionary built from the classifier's
  result on piece 0 (growth) and on piece 1 (decline).
\<close>

theorem process_paragraph_out_of_range:
  "(length (str_split para_text ''.'') < 2 \<longleftrightarrow> CHR ''.'' \<notin> set para_text)
   \<and> (CHR ''.'' \<notin> set para_text \<longrightarrow> process_paragraph para_text = Inl IndexError)
   \<and> (CHR ''.'' \<in> set para_text \<longrightarrow>
        (\<exists>gl dl. get_list_of_industries_from_sentence (str_split para_text ''.'' ! 0) = Inr gl
           \<and> get_list_of_industries_from_sentence (str_split para_text ''.'' ! 1) = Inr dl
           \<and> process_paragraph para_text
               = Inr (create_dict_of_industries gl (list_industries_neutral gl dl) dl)))"
proof (intro conjI impI)
  show "length (str_split para_text ''.'') < 2 \<longleftrightarrow> CHR ''.'' \<notin> set para_text"
    using str_split_present [of "CHR ''.''" para_text] str_split_absent [of "CHR ''.''" para_text]
    by auto
qed (auto simp: process_paragraph_no_period dest: process_paragraph_period)

theorem process_paragraph_out_of_range_witness:
  "process_paragraph ''No industries are named here'' = Inl IndexError
   \<and> (\<exists>r. process_paragraph ''Growth: Machinery. Decrease: Wood Products.'' = Inr r)"
proof -
  have a: "CHR ''.'' \<notin> set ''No industries are named here''" by simp
  have b: "CHR ''.'' \<in> set ''Growth: Machinery. Decrease: Wood Products.''" by simp
  from a process_paragraph_out_of_range [of "''No industries are named here''"]
  have "process_paragraph ''No industries are named here'' = Inl IndexError" by blast
  moreover from b process_paragraph_out_of_range [of "''Growth: Machinery. Decrease: Wood Products.''"]
  have "\<exists>r. process_paragraph ''Growth: Machinery. Decrease: Wood Products.'' = Inr r" by blast
  ultimately show ?thesis by blast
qed

text \<open>
  Claim C9, where the code departs from it. The output name is the input name with every
  occurrence of \<open>pdf\<close> replaced, not only the extension: a directory or file name that
  holds \<open>pdf\<close> is changed too, and an upper-case extension is left as it is.
\<close>

theorem output_filename_replaces_everywhere:
  "output_filename ''pdf-reports/ism.pdf'' = ''xlsx-reports/ism.xlsx''
   \<and> output_filename ''ism.PDF'' = ''ism.PDF''"
  by code_simp

text \<open>
  Claim C10. For a paragraph with at least one period \<open>process_paragraph\<close> returns a
  report, and every one of the 18 fixed industries is a key of it.
\<close>

theorem fixed_industries_are_keys:
  assumes "CHR ''.'' \<in> set para_text"
  shows "\<exists>r. process_paragraph para_text = Inr r \<and> set LIST_OF_INDUSTRIES \<subseteq> set (keys r)"
proof -
  from process_paragraph_period [OF assms] obtain gl dl where
    r: "process_paragraph para_text
          = Inr (create_dict_of_industries gl (list_industries_neutral gl dl) dl)"
    by blast
  have "set LIST_OF_INDUSTRIES
          \<subseteq> set (keys (create_dict_of_industries gl (list_industries_neutral gl dl) dl))"
    by (auto simp: set_keys_create_dict set_list_industries_neutral)
  with r show ?thesis by blast
qed

theorem fixed_industries_are_keys_witness:
  "\<exists>r. process_paragraph ''Growth: Machinery; and Gadgets. Decrease: Wood Products.'' = Inr r
     \<and> set LIST_OF_INDUSTRIES \<subseteq> set (keys r)"
proof -
  have "CHR ''.'' \<in> set ''Growth: Machinery; and Gadgets. Decrease: Wood Products.''" by simp
  then show ?thesis by (rule fixed_industries_are_keys)
qed

end
